theory Spec2Isabelle
  imports Main "HOL-Library.Word"
begin

section \<open>The Bloom filter of \<open>BloomFilter.py\<close>\<close>

text \<open>
  The class \<open>BloomFilter\<close> keeps an integer \<open>size\<close> and a list \<open>bit_arrays\<close> of three
  lists of integers (0 or 1). \<open>_hashes\<close> turns an item into three indices, \<open>add\<close> writes a
  1 at each of them, \<open>check\<close> reads them. Python integers are unbounded (\<open>int\<close>); every
  exception the methods can raise is a value of \<open>py_error\<close>, and a method that can raise
  returns \<open>py_error + 'a\<close>. A method that assigns returns the filter it leaves beside
  its outcome, also when it raises. Lists are as long as the code asks for: running out of
  memory is not modelled.

  Names are those of the source, except where HOL has them already or cannot spell them:
  the field \<open>size\<close> is \<open>size_bf\<close>, \<open>__init__\<close> is \<open>BloomFilter_init\<close> and \<open>_hashes\<close> is
  \<open>hashes\<close>.
\<close>

subsection \<open>Exceptions and the built-in operations the class uses\<close>

datatype py_error =
    ZeroDivisionError
  | IndexError
  | UnicodeEncodeError
  | OtherException

type_synonym byte = "8 word"

text \<open>
  \<open>a % b\<close> on Python integers: the result has the sign of \<open>b\<close>, as \<open>mod\<close> on \<open>int\<close>
  has, and \<open>b = 0\<close> raises.
\<close>

definition py_mod :: "int \<Rightarrow> int \<Rightarrow> py_error + int" where
  "py_mod a b = (if b = 0 then Inl ZeroDivisionError else Inr (a mod b))"

text \<open>
  The position that a Python list index denotes: a negative index counts from the end, and
  an index outside the list raises \<open>IndexError\<close>.
\<close>

definition py_index :: "'a list \<Rightarrow> int \<Rightarrow> py_error + nat" where
  "py_index xs i =
     (if 0 \<le> i \<and> i < int (length xs) then Inr (nat i)
      else if i < 0 \<and> - int (length xs) \<le> i then Inr (nat (int (length xs) + i))
      else Inl IndexError)"

text \<open>\<open>xs[i]\<close> and \<open>xs[i] = v\<close>.\<close>

definition getitem :: "'a list \<Rightarrow> int \<Rightarrow> py_error + 'a" where
  "getitem xs i = (case py_index xs i of Inl e \<Rightarrow> Inl e | Inr j \<Rightarrow> Inr (xs ! j))"

definition setitem :: "'a list \<Rightarrow> int \<Rightarrow> 'a \<Rightarrow> py_error + 'a list" where
  "setitem xs i v = (case py_index xs i of Inl e \<Rightarrow> Inl e | Inr j \<Rightarrow> Inr (xs[j := v]))"

text \<open>
  \<open>s.encode('utf-8')\<close> on a string given as its list of code points (all below
  \<open>0x110000\<close> in a Python string). A surrogate (\<open>0xD800\<close> to \<open>0xDFFF\<close>) has no UTF-8
  form and raises \<open>UnicodeEncodeError\<close>.
\<close>

definition utf8_char :: "nat \<Rightarrow> py_error + byte list" where
  "utf8_char c =
     (if c < 0x80 then Inr [of_nat c]
      else if c < 0x800 then Inr [of_nat (0xC0 + c div 64), of_nat (0x80 + c mod 64)]
      else if 0xD800 \<le> c \<and> c \<le> 0xDFFF then Inl UnicodeEncodeError
      else if c < 0x10000 then
        Inr [of_nat (0xE0 + c div 4096), of_nat (0x80 + (c div 64) mod 64),
             of_nat (0x80 + c mod 64)]
      else
        Inr [of_nat (0xF0 + c div 262144), of_nat (0x80 + (c div 4096) mod 64),
             of_nat (0x80 + (c div 64) mod 64), of_nat (0x80 + c mod 64)])"

fun encode_utf8 :: "nat list \<Rightarrow> py_error + byte list" where
  "encode_utf8 [] = Inr []"
| "encode_utf8 (c # cs) =
     (case utf8_char c of
        Inl e \<Rightarrow> Inl e
      | Inr bs \<Rightarrow> (case encode_utf8 cs of Inl e \<Rightarrow> Inl e | Inr rest \<Rightarrow> Inr (bs @ rest)))"

text \<open>
  What the class takes from outside the file: \<open>str\<close> applied to an item, which may raise
  whatever the item's \<open>__str__\<close> raises, and the three digests of \<open>hashlib\<close>, each one
  already read as the unsigned integer \<open>int(hashlib.h(b).hexdigest(), 16)\<close>. Every
  property below holds for any such four functions.
\<close>

record 'a runtime =
  str_of :: "'a \<Rightarrow> py_error + nat list"
  md5 :: "byte list \<Rightarrow> nat"
  sha1 :: "byte list \<Rightarrow> nat"
  sha256 :: "byte list \<Rightarrow> nat"

subsection \<open>The class\<close>

record BloomFilter =
  size_bf :: int
  bit_arrays :: "int list list"

text \<open>
  \<open>__init__\<close>: no check of \<open>size\<close>. \<open>[0] * size\<close> is the empty list when \<open>size\<close> is zero
  or negative, and the comprehension builds three separate lists. A caller that leaves
  \<open>size\<close> out gets \<open>BloomFilter_init 100\<close>.
\<close>

definition BloomFilter_init :: "int \<Rightarrow> py_error + BloomFilter" where
  "BloomFilter_init sz =
     Inr \<lparr>size_bf = sz, bit_arrays = map (\<lambda>_. replicate (nat sz) 0) [0..<3]\<rparr>"

text \<open>\<open>item_str = str(item).encode('utf-8')\<close>\<close>

definition item_bytes :: "'a runtime \<Rightarrow> 'a \<Rightarrow> py_error + byte list" where
  "item_bytes R item =
     (case str_of R item of Inl e \<Rightarrow> Inl e | Inr s \<Rightarrow> encode_utf8 s)"

text \<open>\<open>_hashes\<close>: the three digests, each reduced modulo \<open>self.size\<close>, in this order.\<close>

definition hashes :: "'a runtime \<Rightarrow> BloomFilter \<Rightarrow> 'a \<Rightarrow> py_error + int list" where
  "hashes R self item =
     (case item_bytes R item of
        Inl e \<Rightarrow> Inl e
      | Inr item_str \<Rightarrow>
     (case py_mod (int (md5 R item_str)) (size_bf self) of
        Inl e \<Rightarrow> Inl e
      | Inr hash1 \<Rightarrow>
     (case py_mod (int (sha1 R item_str)) (size_bf self) of
        Inl e \<Rightarrow> Inl e
      | Inr hash2 \<Rightarrow>
     (case py_mod (int (sha256 R item_str)) (size_bf self) of
        Inl e \<Rightarrow> Inl e
      | Inr hash3 \<Rightarrow> Inr [hash1, hash2, hash3]))))"

text \<open>
  \<open>self.bit_arrays[index][hash_val] = 1\<close>: the row is looked up, then written at
  \<open>hash_val\<close>; either step may raise \<open>IndexError\<close>, and then nothing is written. The
  three rows are separate lists, so a write to one row leaves the others as they are.
\<close>

definition store :: "BloomFilter \<Rightarrow> nat \<Rightarrow> int \<Rightarrow> (py_error + unit) \<times> BloomFilter" where
  "store self index hash_val =
     (case getitem (bit_arrays self) (int index) of
        Inl e \<Rightarrow> (Inl e, self)
      | Inr row \<Rightarrow>
          (case setitem row hash_val 1 of
             Inl e \<Rightarrow> (Inl e, self)
           | Inr row' \<Rightarrow> (Inr (), self\<lparr>bit_arrays := (bit_arrays self)[index := row']\<rparr>)))"

text \<open>\<open>self.bit_arrays[index][hash_val]\<close>\<close>

definition probe :: "BloomFilter \<Rightarrow> nat \<Rightarrow> int \<Rightarrow> py_error + int" where
  "probe self index hash_val =
     (case getitem (bit_arrays self) (int index) of
        Inl e \<Rightarrow> Inl e
      | Inr row \<Rightarrow> getitem row hash_val)"

text \<open>
  The loop of \<open>add\<close> over \<open>enumerate(self._hashes(item))\<close>. An exception leaves the loop
  with the writes made so far in place, so the filter is returned beside the outcome.
\<close>

fun add_loop :: "BloomFilter \<Rightarrow> (nat \<times> int) list \<Rightarrow> (py_error + unit) \<times> BloomFilter" where
  "add_loop self [] = (Inr (), self)"
| "add_loop self ((index, hash_val) # rest) =
     (case store self index hash_val of
        (Inl e, self') \<Rightarrow> (Inl e, self')
      | (Inr _, self') \<Rightarrow> add_loop self' rest)"

definition add :: "'a runtime \<Rightarrow> BloomFilter \<Rightarrow> 'a \<Rightarrow> (py_error + unit) \<times> BloomFilter" where
  "add R self item =
     (case hashes R self item of
        Inl e \<Rightarrow> (Inl e, self)
      | Inr hs \<Rightarrow> add_loop self (enumerate 0 hs))"

text \<open>
  The loop of \<open>check\<close>: \<open>False\<close> at the first cell that holds 0, \<open>True\<close> when the list is
  exhausted. The filter is threaded through as in \<open>add\<close>, so that what \<open>check\<close> leaves
  behind can be compared with what it was given.
\<close>

fun check_loop :: "BloomFilter \<Rightarrow> (nat \<times> int) list \<Rightarrow> (py_error + bool) \<times> BloomFilter" where
  "check_loop self [] = (Inr True, self)"
| "check_loop self ((index, hash_val) # rest) =
     (case probe self index hash_val of
        Inl e \<Rightarrow> (Inl e, self)
      | Inr b \<Rightarrow> if b = 0 then (Inr False, self) else check_loop self rest)"

definition check :: "'a runtime \<Rightarrow> BloomFilter \<Rightarrow> 'a \<Rightarrow> (py_error + bool) \<times> BloomFilter" where
  "check R self item =
     (case hashes R self item of
        Inl e \<Rightarrow> (Inl e, self)
      | Inr hs \<Rightarrow> check_loop self (enumerate 0 hs))"

text \<open>
  A caller's run of \<open>add\<close> calls, one per item, as in the script at the end of the file;
  the first exception ends the run.
\<close>

fun adds :: "'a runtime \<Rightarrow> BloomFilter \<Rightarrow> 'a list \<Rightarrow> (py_error + unit) \<times> BloomFilter" where
  "adds R self [] = (Inr (), self)"
| "adds R self (item # items) =
     (case add R self item of
        (Inl e, self') \<Rightarrow> (Inl e, self')
      | (Inr _, self') \<Rightarrow> adds R self' items)"

subsection \<open>Notions used to state the properties\<close>

text \<open>
  The cell of row \<open>i\<close> that \<open>self.bit_arrays[i][h]\<close> denotes, when both indexings
  succeed.
\<close>

definition cell :: "BloomFilter \<Rightarrow> nat \<Rightarrow> int \<Rightarrow> py_error + nat" where
  "cell f i h =
     (if i < length (bit_arrays f) then py_index (bit_arrays f ! i) h else Inl IndexError)"

text \<open>What no method changes: the size and the lengths of the rows.\<close>

definition shape :: "BloomFilter \<Rightarrow> int \<times> nat list" where
  "shape f = (size_bf f, map length (bit_arrays f))"

text \<open>
  Cell \<open>j\<close> of row \<open>i\<close> exists and is set, that is, holds something other than the 0
  that \<open>check\<close> tests for. \<open>marked\<close> is the same read through Python indices, as
  \<open>check\<close> does it. \<open>written\<close> says that the cell holds exactly the 1 that \<open>add\<close>
  stores.
\<close>

definition bit_set :: "BloomFilter \<Rightarrow> nat \<Rightarrow> nat \<Rightarrow> bool" where
  "bit_set f i j =
     (i < length (bit_arrays f) \<and> j < length (bit_arrays f ! i) \<and> bit_arrays f ! i ! j \<noteq> 0)"

definition set_bits :: "BloomFilter \<Rightarrow> (nat \<times> nat) set" where
  "set_bits f = {(i, j). bit_set f i j}"

definition marked :: "BloomFilter \<Rightarrow> nat \<Rightarrow> int \<Rightarrow> bool" where
  "marked f i h = (case probe f i h of Inl e \<Rightarrow> False | Inr b \<Rightarrow> b \<noteq> 0)"

definition written :: "BloomFilter \<Rightarrow> nat \<Rightarrow> int \<Rightarrow> bool" where
  "written f i h = (probe f i h = Inr 1)"

text \<open>
  A filter as \<open>__init__\<close> builds it from a positive size, and as \<open>add\<close> keeps it: three
  rows of \<open>size\<close> cells.
\<close>

definition well_formed :: "BloomFilter \<Rightarrow> bool" where
  "well_formed f \<longleftrightarrow>
     1 \<le> size_bf f \<and> map length (bit_arrays f) = replicate 3 (nat (size_bf f))"

subsection \<open>The run of the script\<close>

text \<open>
  The script at the end of the file builds \<open>BloomFilter(size=50)\<close>, adds \<open>"google"\<close> and
  \<open>"openai"\<close> and checks them and \<open>"microsoft"\<close>. The examples below replay it. Items
  are strings, booleans or \<open>None\<close>, with the string form Python gives them; the digests
  are those \<open>hashlib\<close> returns on the byte strings that occur, and 0 stands in on every
  other input, which no example reaches.
\<close>

datatype py_item = PyStr string | PyBool bool | PyNone

definition code_points :: "string \<Rightarrow> nat list" where
  "code_points s = map of_char s"

fun py_str :: "py_item \<Rightarrow> py_error + nat list" where
  "py_str (PyStr s) = Inr (code_points s)"
| "py_str (PyBool b) = Inr (code_points (if b then ''True'' else ''False''))"
| "py_str PyNone = Inr (code_points ''None'')"

definition ascii :: "string \<Rightarrow> byte list" where
  "ascii s = map (\<lambda>c. of_nat (of_char c)) s"

definition lookup :: "(byte list \<times> nat) list \<Rightarrow> byte list \<Rightarrow> nat" where
  "lookup table b = (case map_of table b of None \<Rightarrow> 0 | Some v \<Rightarrow> v)"

definition script_runtime :: "py_item runtime" where
  "script_runtime =
     \<lparr>str_of = py_str,
      md5 = lookup
        [(ascii ''google'', 0xc822c1b63853ed273b89687ac505f9fa),
         (ascii ''openai'', 0x2c6ee24b09816a6f14f95d1698b24ead),
         (ascii ''microsoft'', 0x5f532a3fc4f1ea403f37070f59a7a53a),
         (ascii ''None'', 0x6adf97f83acf6453d4a6a4b1070f3754)],
      sha1 = lookup
        [(ascii ''google'', 0x759730a97e4373f3a0ee12805db065e3a4a649a5),
         (ascii ''openai'', 0x7d3bbb5cbbc497d78ad547d8d39cbea2b3b8b69e),
         (ascii ''microsoft'', 0x64814a3b7fd8444a56ad3641fd3451c6deaf0757),
         (ascii ''None'', 0x6eef6648406c333a4035cd5e60d0bf2ecf2606d7)],
      sha256 = lookup
        [(ascii ''google'', 0xbbdefa2950f49882f295b1285d4fa9dec45fc4144bfb07ee6acc68762d12c2e3),
         (ascii ''openai'', 0x7d3194f79e645c42e4396dda38be04766810ec6a00d00aced3ffc2a0a1f1a9ef),
         (ascii ''microsoft'', 0x9fbf261b62c1d7c00db73afb81dd97fdf20b3442e36e338cb9359b856a03bdc8),
         (ascii ''None'', 0xdc937b59892604f5a86ac96936cd7ff09e25f18ae6b758e8014a24c7fa039e91)]\<rparr>"

definition script_bf :: BloomFilter where
  "script_bf =
     \<lparr>size_bf = 50, bit_arrays = [replicate 50 0, replicate 50 0, replicate 50 0]\<rparr>"

section \<open>Properties\<close>

subsection \<open>Indexing, one write, one read\<close>

lemma py_index_less: "py_index xs i = Inr j \<Longrightarrow> j < length xs"
  by (auto simp: py_index_def split: if_splits)

lemma py_index_length: "length xs = length ys \<Longrightarrow> py_index xs i = py_index ys i"
  by (simp add: py_index_def)

lemma py_index_nat: "py_index xs (int i) = (if i < length xs then Inr i else Inl IndexError)"
  by (simp add: py_index_def)

lemma py_index_nonneg:
  "0 \<le> h \<Longrightarrow> py_index xs h = (if nat h < length xs then Inr (nat h) else Inl IndexError)"
  by (auto simp: py_index_def)

lemma BloomFilter_init_rows:
  "BloomFilter_init sz =
     Inr \<lparr>size_bf = sz,
          bit_arrays = [replicate (nat sz) 0, replicate (nat sz) 0, replicate (nat sz) 0]\<rparr>"
  by (simp add: BloomFilter_init_def upt_rec)

lemma store_cell:
  "store f i h =
     (case cell f i h of
        Inl e \<Rightarrow> (Inl e, f)
      | Inr j \<Rightarrow> (Inr (), f\<lparr>bit_arrays := (bit_arrays f)[i := (bit_arrays f ! i)[j := 1]]\<rparr>))"
  by (simp add: store_def cell_def getitem_def setitem_def py_index_nat split: sum.splits)

lemma probe_cell:
  "probe f i h = (case cell f i h of Inl e \<Rightarrow> Inl e | Inr j \<Rightarrow> Inr (bit_arrays f ! i ! j))"
  by (simp add: probe_def cell_def getitem_def py_index_nat split: sum.splits)

lemma cell_shape: "shape f = shape g \<Longrightarrow> cell f i h = cell g i h"
  apply (simp add: cell_def shape_def)
  by (metis length_map nth_map py_index_length)

lemma store_shape: "shape (snd (store f i h)) = shape f"
  by (auto simp: store_cell shape_def cell_def map_update list_update_same_conv dest: py_index_less split: sum.splits)

lemma cell_less: "cell f i h = Inr j \<Longrightarrow> i < length (bit_arrays f) \<and> j < length (bit_arrays f ! i)"
  by (auto simp: cell_def dest: py_index_less split: if_splits)

lemma marked_iff: "marked f i h \<longleftrightarrow> (\<exists>j. cell f i h = Inr j \<and> bit_set f i j)"
  by (auto simp: marked_def probe_cell bit_set_def dest: cell_less split: sum.splits)

lemma store_size: "size_bf (snd (store f i h)) = size_bf f"
  using store_shape [of f i h] by (simp add: shape_def)

lemma store_raises: "fst (store f i h) = Inl e \<Longrightarrow> snd (store f i h) = f"
  by (auto simp: store_cell split: sum.splits)

lemma store_bit_set:
  assumes b: "bit_set f i j"
  shows "bit_set (snd (store f i' h')) i j"
proof (cases "cell f i' h'")
  case (Inl e)
  with b show ?thesis by (simp add: store_cell)
next
  case (Inr j')
  show ?thesis
  proof (cases "i = i'")
    case True
    with b Inr show ?thesis
      by (cases "j = j'") (simp_all add: store_cell bit_set_def)
  next
    case False
    with b Inr show ?thesis
      by (simp add: store_cell bit_set_def)
  qed
qed

lemma store_marks: "fst (store f i h) = Inr u \<Longrightarrow> marked (snd (store f i h)) i h"
proof -
  assume ok: "fst (store f i h) = Inr u"
  then obtain j where j: "cell f i h = Inr j"
    by (auto simp: store_cell split: sum.splits)
  have "cell (snd (store f i h)) i h = Inr j"
    using cell_shape [OF store_shape, of f i h i h] j by simp
  moreover have "bit_set (snd (store f i h)) i j"
    using j cell_less [OF j] by (simp add: store_cell bit_set_def)
  ultimately show ?thesis by (auto simp: marked_iff)
qed

lemma store_marked: "marked f i h \<Longrightarrow> marked (snd (store f i' h')) i h"
  unfolding marked_iff
  using cell_shape [OF store_shape, of f i' h' i h] store_bit_set by auto

lemma add_loop_shape: "shape (snd (add_loop f ps)) = shape f"
proof (induction ps arbitrary: f)
  case Nil
  show ?case by simp
next
  case (Cons p ps)
  obtain i h where p: "p = (i, h)" by (cases p)
  obtain r g where s: "store f i h = (r, g)" by (cases "store f i h")
  have g: "shape g = shape f" using store_shape [of f i h] s by simp
  show ?case
  proof (cases r)
    case (Inl e)
    with p s g show ?thesis by simp
  next
    case (Inr u)
    with p s g Cons.IH [of g] show ?thesis by simp
  qed
qed

lemma add_loop_bit_set: "bit_set f i j \<Longrightarrow> bit_set (snd (add_loop f ps)) i j"
proof (induction ps arbitrary: f)
  case Nil
  then show ?case by simp
next
  case (Cons p ps)
  obtain i' h' where p: "p = (i', h')" by (cases p)
  obtain r g where s: "store f i' h' = (r, g)" by (cases "store f i' h'")
  have g: "bit_set g i j" using store_bit_set [OF Cons.prems, of i' h'] s by simp
  show ?case
  proof (cases r)
    case (Inl e)
    with p s g show ?thesis by simp
  next
    case (Inr u)
    with p s Cons.IH [OF g] show ?thesis by simp
  qed
qed

lemma add_loop_marked: "marked f i h \<Longrightarrow> marked (snd (add_loop f ps)) i h"
  unfolding marked_iff
  using cell_shape [OF add_loop_shape, of f ps i h] add_loop_bit_set by auto

lemma add_loop_marks:
  "fst (add_loop f ps) = Inr u \<Longrightarrow> (i, h) \<in> set ps \<Longrightarrow> marked (snd (add_loop f ps)) i h"
proof (induction ps arbitrary: f)
  case Nil
  then show ?case by simp
next
  case (Cons p ps)
  obtain i' h' where p: "p = (i', h')" by (cases p)
  obtain r g where s: "store f i' h' = (r, g)" by (cases "store f i' h'")
  from Cons.prems(1) p s obtain v where r: "r = Inr v"
    by (cases r) auto
  have loop: "add_loop f (p # ps) = add_loop g ps" using p s r by simp
  show ?case
  proof (cases "(i, h) = (i', h')")
    case True
    have "marked g i h" using store_marks [of f i' h' v] s r True by simp
    then show ?thesis using add_loop_marked loop by simp
  next
    case False
    with Cons.prems(2) p have "(i, h) \<in> set ps" by auto
    moreover have "fst (add_loop g ps) = Inr u" using Cons.prems(1) loop by simp
    ultimately show ?thesis using Cons.IH [of g] loop by simp
  qed
qed

lemma check_loop_state: "snd (check_loop f ps) = f"
  by (induction ps) (auto split: sum.splits)

lemma check_loop_True:
  "fst (check_loop f ps) = Inr True \<longleftrightarrow> (\<forall>(i, h) \<in> set ps. marked f i h)"
proof (induction ps)
  case Nil
  show ?case by simp
next
  case (Cons p ps)
  obtain i h where p: "p = (i, h)" by (cases p)
  show ?case
  proof (cases "probe f i h")
    case (Inl e)
    with p show ?thesis by (simp add: marked_def)
  next
    case (Inr b)
    with p Cons.IH show ?thesis by (cases "b = 0") (simp_all add: marked_def)
  qed
qed

lemma hashes_shape: "shape f = shape g \<Longrightarrow> hashes R f x = hashes R g x"
  by (simp add: hashes_def shape_def cong: sum.case_cong)

lemma add_shape: "shape (snd (add R f x)) = shape f"
  by (simp add: add_def add_loop_shape split: sum.splits)

lemma add_bit_set: "bit_set f i j \<Longrightarrow> bit_set (snd (add R f x)) i j"
  by (simp add: add_def add_loop_bit_set split: sum.splits)

lemma add_marked: "marked f i h \<Longrightarrow> marked (snd (add R f x)) i h"
  by (simp add: add_def add_loop_marked split: sum.splits)

lemma hashes_add: "hashes R (snd (add R f y)) x = hashes R f x"
  by (rule hashes_shape [OF add_shape])

lemma check_state: "snd (check R f x) = f"
  by (simp add: check_def check_loop_state split: sum.splits)

lemma check_True:
  "fst (check R f x) = Inr True \<longleftrightarrow>
     (\<exists>hs. hashes R f x = Inr hs \<and> (\<forall>(i, h) \<in> set (enumerate 0 hs). marked f i h))"
  by (cases "hashes R f x") (simp_all add: check_def check_loop_True)

lemma check_after_add:
  assumes "fst (add R f x) = Inr u"
  shows "fst (check R (snd (add R f x)) x) = Inr True"
proof -
  from assms obtain hs where hs: "hashes R f x = Inr hs"
    by (cases "hashes R f x") (simp_all add: add_def)
  have same: "hashes R (snd (add R f x)) x = Inr hs"
    using hs by (simp add: hashes_add)
  have "marked (snd (add R f x)) i h" if "(i, h) \<in> set (enumerate 0 hs)" for i h
    using add_loop_marks [of f "enumerate 0 hs" u i h] assms hs that
    by (simp add: add_def)
  with same show ?thesis unfolding check_True by auto
qed

lemma check_True_add:
  assumes "fst (check R f x) = Inr True"
  shows "fst (check R (snd (add R f y)) x) = Inr True"
proof -
  from assms obtain hs where hs: "hashes R f x = Inr hs"
    and m: "\<forall>(i, h) \<in> set (enumerate 0 hs). marked f i h"
    unfolding check_True by blast
  have "hashes R (snd (add R f y)) x = Inr hs"
    using hs by (simp add: hashes_add)
  moreover have "\<forall>(i, h) \<in> set (enumerate 0 hs). marked (snd (add R f y)) i h"
    using m add_marked by fastforce
  ultimately show ?thesis unfolding check_True by blast
qed

lemma adds_shape: "shape (snd (adds R f xs)) = shape f"
proof (induction xs arbitrary: f)
  case Nil
  show ?case by simp
next
  case (Cons x xs)
  obtain r g where a: "add R f x = (r, g)" by (cases "add R f x")
  have g: "shape g = shape f" using add_shape [of R f x] a by simp
  show ?case using a g Cons.IH [of g] by (cases r) simp_all
qed

lemma adds_bit_set: "bit_set f i j \<Longrightarrow> bit_set (snd (adds R f xs)) i j"
proof (induction xs arbitrary: f)
  case Nil
  then show ?case by simp
next
  case (Cons x xs)
  obtain r g where a: "add R f x = (r, g)" by (cases "add R f x")
  have g: "bit_set g i j" using add_bit_set [OF Cons.prems, of R x] a by simp
  show ?case using a g Cons.IH [OF g] by (cases r) simp_all
qed

lemma check_True_adds:
  "fst (check R f x) = Inr True \<Longrightarrow> fst (check R (snd (adds R f xs)) x) = Inr True"
proof (induction xs arbitrary: f)
  case Nil
  then show ?case by simp
next
  case (Cons y ys)
  obtain r g where a: "add R f y = (r, g)" by (cases "add R f y")
  have g: "fst (check R g x) = Inr True" using check_True_add [OF Cons.prems, of y] a by simp
  show ?case using a g Cons.IH [OF g] by (cases r) simp_all
qed

lemma adds_append:
  "adds R f (xs @ ys) =
     (case adds R f xs of (Inl e, g) \<Rightarrow> (Inl e, g) | (Inr u, g) \<Rightarrow> adds R g ys)"
  by (induction xs arbitrary: f) (auto split: prod.splits sum.splits)

subsection \<open>Filters of positive size\<close>

lemma well_formed_shape: "shape f = shape g \<Longrightarrow> well_formed f \<longleftrightarrow> well_formed g"
  by (simp add: well_formed_def shape_def)

lemma init_well_formed: "1 \<le> n \<Longrightarrow> BloomFilter_init n = Inr f \<Longrightarrow> well_formed f"
  by (auto simp: BloomFilter_init_rows well_formed_def numeral_3_eq_3)

lemma hashes_bytes:
  assumes "size_bf f \<noteq> 0" and "item_bytes R x = Inr bs"
  shows "hashes R f x =
           Inr [int (md5 R bs) mod size_bf f, int (sha1 R bs) mod size_bf f,
                int (sha256 R bs) mod size_bf f]"
  using assms by (simp add: hashes_def py_mod_def)

lemma hashes_raises: "item_bytes R x = Inl e \<Longrightarrow> hashes R f x = Inl e"
  by (simp add: hashes_def)

lemma hashes_zero: "size_bf f = 0 \<Longrightarrow> item_bytes R x = Inr bs \<Longrightarrow> hashes R f x = Inl ZeroDivisionError"
  by (simp add: hashes_def py_mod_def)

lemma well_formed_cell:
  assumes "well_formed f" and "i < 3" and "0 \<le> h" and "h < size_bf f"
  shows "cell f i h = Inr (nat h)"
proof -
  from assms(1) have len: "length (bit_arrays f) = 3"
    unfolding well_formed_def by (metis length_map length_replicate)
  from assms(1,2) len have "length (bit_arrays f ! i) = nat (size_bf f)"
    unfolding well_formed_def by (metis nth_map nth_replicate)
  with assms len show ?thesis by (simp add: cell_def py_index_nonneg)
qed

lemma add_loop_returns:
  "(\<forall>(i, h) \<in> set ps. \<exists>j. cell f i h = Inr j) \<Longrightarrow> fst (add_loop f ps) = Inr ()"
proof (induction ps arbitrary: f)
  case Nil
  show ?case by simp
next
  case (Cons p ps)
  obtain i h where p: "p = (i, h)" by (cases p)
  from Cons.prems p obtain j where j: "cell f i h = Inr j" by auto
  define g where "g = f\<lparr>bit_arrays := (bit_arrays f)[i := (bit_arrays f ! i)[j := 1]]\<rparr>"
  have s: "store f i h = (Inr (), g)" using j by (simp add: store_cell g_def)
  have "shape g = shape f" using store_shape [of f i h] s by simp
  then have "\<forall>(i, h) \<in> set ps. \<exists>j. cell g i h = Inr j"
    using Cons.prems cell_shape [of g f] by auto
  then show ?case using Cons.IH [of g] p s by simp
qed

lemma add_returns:
  assumes "well_formed f" and "item_bytes R x = Inr bs"
  shows "fst (add R f x) = Inr ()"
proof -
  let ?n = "size_bf f"
  let ?hs = "[int (md5 R bs) mod ?n, int (sha1 R bs) mod ?n, int (sha256 R bs) mod ?n]"
  from assms(1) have n: "1 \<le> ?n" by (simp add: well_formed_def)
  then have hs: "hashes R f x = Inr ?hs" using assms(2) by (simp add: hashes_bytes)
  have "\<exists>j. cell f i h = Inr j" if "(i, h) \<in> set (enumerate 0 ?hs)" for i h
  proof -
    from that have "i < 3" and "0 \<le> h" and "h < ?n" using n by auto
    then show ?thesis using well_formed_cell [OF assms(1)] by blast
  qed
  then have "fst (add_loop f (enumerate 0 ?hs)) = Inr ()"
    by (intro add_loop_returns) blast
  with hs show ?thesis by (simp add: add_def)
qed

lemma adds_returns:
  "well_formed f \<Longrightarrow> (\<forall>x \<in> set xs. \<exists>bs. item_bytes R x = Inr bs) \<Longrightarrow>
   fst (adds R f xs) = Inr ()"
proof (induction xs arbitrary: f)
  case Nil
  show ?case by simp
next
  case (Cons x xs)
  from Cons.prems obtain bs where bs: "item_bytes R x = Inr bs" by auto
  obtain r g where a: "add R f x = (r, g)" by (cases "add R f x")
  have r: "r = Inr ()" using add_returns [OF Cons.prems(1) bs] a by simp
  have "shape g = shape f" using add_shape [of R f x] a by simp
  then have "well_formed g" using Cons.prems(1) well_formed_shape by blast
  then show ?case using Cons.IH [of g] Cons.prems(2) a r by simp
qed

subsection \<open>The script, step by step\<close>

lemma script_init: "BloomFilter_init 50 = Inr script_bf"
  by (simp add: BloomFilter_init_rows script_bf_def)

lemma script_str: "str_of script_runtime = py_str"
  by (simp add: script_runtime_def)

lemma script_md5: "md5 script_runtime = lookup
        [(ascii ''google'', 0xc822c1b63853ed273b89687ac505f9fa),
         (ascii ''openai'', 0x2c6ee24b09816a6f14f95d1698b24ead),
         (ascii ''microsoft'', 0x5f532a3fc4f1ea403f37070f59a7a53a),
         (ascii ''None'', 0x6adf97f83acf6453d4a6a4b1070f3754)]"
  by (simp add: script_runtime_def)

lemma script_sha1: "sha1 script_runtime = lookup
        [(ascii ''google'', 0x759730a97e4373f3a0ee12805db065e3a4a649a5),
         (ascii ''openai'', 0x7d3bbb5cbbc497d78ad547d8d39cbea2b3b8b69e),
         (ascii ''microsoft'', 0x64814a3b7fd8444a56ad3641fd3451c6deaf0757),
         (ascii ''None'', 0x6eef6648406c333a4035cd5e60d0bf2ecf2606d7)]"
  by (simp add: script_runtime_def)

lemma script_sha256: "sha256 script_runtime = lookup
        [(ascii ''google'', 0xbbdefa2950f49882f295b1285d4fa9dec45fc4144bfb07ee6acc68762d12c2e3),
         (ascii ''openai'', 0x7d3194f79e645c42e4396dda38be04766810ec6a00d00aced3ffc2a0a1f1a9ef),
         (ascii ''microsoft'', 0x9fbf261b62c1d7c00db73afb81dd97fdf20b3442e36e338cb9359b856a03bdc8),
         (ascii ''None'', 0xdc937b59892604f5a86ac96936cd7ff09e25f18ae6b758e8014a24c7fa039e91)]"
  by (simp add: script_runtime_def)

lemmas script_digests =
  item_bytes_def script_str code_points_def utf8_char_def script_md5 script_sha1 script_sha256
  lookup_def ascii_def py_mod_def

lemma script_bytes_google:
  "item_bytes script_runtime (PyStr ''google'') = Inr [0x67, 0x6F, 0x6F, 0x67, 0x6C, 0x65]"
  by (simp add: script_digests)

lemma script_google:
  "size_bf f = 50 \<Longrightarrow> hashes script_runtime f (PyStr ''google'') = Inr [12, 35, 31]"
  by (simp add: hashes_def script_digests)

lemma script_openai:
  "size_bf f = 50 \<Longrightarrow> hashes script_runtime f (PyStr ''openai'') = Inr [5, 12, 21]"
  by (simp add: hashes_def script_digests)

lemma script_microsoft:
  "size_bf f = 50 \<Longrightarrow> hashes script_runtime f (PyStr ''microsoft'') = Inr [12, 25, 30]"
  by (simp add: hashes_def script_digests)

lemma script_None:
  "size_bf f = 50 \<Longrightarrow> hashes script_runtime f PyNone = Inr [16, 37, 27]"
  by (simp add: hashes_def script_digests)

lemma script_str_None:
  "size_bf f = 50 \<Longrightarrow> hashes script_runtime f (PyStr ''None'') = Inr [16, 37, 27]"
  by (simp add: hashes_def script_digests)

lemmas script_run =
  add_def check_def script_google script_openai script_microsoft script_None script_str_None
  store_def probe_def getitem_def setitem_def py_index_def script_bf_def

lemma script_check_microsoft:
  "fst (check script_runtime
          (snd (adds script_runtime script_bf [PyStr ''google'', PyStr ''openai'']))
          (PyStr ''microsoft'')) = Inr False"
  by (simp add: script_run)

subsection \<open>Writing twice\<close>

lemma written_iff: "written f i h \<longleftrightarrow> (\<exists>j. cell f i h = Inr j \<and> bit_arrays f ! i ! j = 1)"
  by (auto simp: written_def probe_cell split: sum.splits)

lemma written_store:
  assumes "written f i h"
  shows "store f i h = (Inr (), f)"
proof -
  from assms obtain j where j: "cell f i h = Inr j" and one: "bit_arrays f ! i ! j = 1"
    by (auto simp: written_iff)
  have "(bit_arrays f ! i)[j := 1] = bit_arrays f ! i"
    using one by (metis list_update_id)
  then have "(bit_arrays f)[i := (bit_arrays f ! i)[j := 1]] = bit_arrays f"
    by (simp add: list_update_id)
  with j show ?thesis by (simp add: store_cell)
qed

lemma store_writes: "fst (store f i h) = Inr u \<Longrightarrow> written (snd (store f i h)) i h"
proof -
  assume ok: "fst (store f i h) = Inr u"
  then obtain j where j: "cell f i h = Inr j"
    by (auto simp: store_cell split: sum.splits)
  have "cell (snd (store f i h)) i h = Inr j"
    using cell_shape [OF store_shape, of f i h i h] j by simp
  moreover have "bit_arrays (snd (store f i h)) ! i ! j = 1"
    using j cell_less [OF j] by (simp add: store_cell)
  ultimately show ?thesis by (auto simp: written_iff)
qed

lemma store_written:
  assumes w: "written f i h"
  shows "written (snd (store f i' h')) i h"
proof -
  from w obtain j where j: "cell f i h = Inr j" and one: "bit_arrays f ! i ! j = 1"
    by (auto simp: written_iff)
  have c: "cell (snd (store f i' h')) i h = Inr j"
    using cell_shape [OF store_shape, of f i' h' i h] j by simp
  have "bit_arrays (snd (store f i' h')) ! i ! j = 1"
  proof (cases "cell f i' h'")
    case (Inl e)
    with one show ?thesis by (simp add: store_cell)
  next
    case (Inr j')
    show ?thesis
    proof (cases "i = i'")
      case True
      with one Inr cell_less [OF j] show ?thesis
        by (cases "j = j'") (simp_all add: store_cell)
    next
      case False
      with one Inr show ?thesis by (simp add: store_cell)
    qed
  qed
  with c show ?thesis by (auto simp: written_iff)
qed

lemma add_loop_written: "written f i h \<Longrightarrow> written (snd (add_loop f ps)) i h"
proof (induction ps arbitrary: f)
  case Nil
  then show ?case by simp
next
  case (Cons p ps)
  obtain i' h' where p: "p = (i', h')" by (cases p)
  obtain r g where s: "store f i' h' = (r, g)" by (cases "store f i' h'")
  have g: "written g i h" using store_written [OF Cons.prems, of i' h'] s by simp
  show ?case
  proof (cases r)
    case (Inl e)
    with p s g show ?thesis by simp
  next
    case (Inr u)
    with p s Cons.IH [OF g] show ?thesis by simp
  qed
qed

lemma add_loop_again: "add_loop (snd (add_loop f ps)) ps = add_loop f ps"
proof (induction ps arbitrary: f)
  case Nil
  show ?case by simp
next
  case (Cons p ps)
  obtain i h where p: "p = (i, h)" by (cases p)
  obtain r g where s: "store f i h = (r, g)" by (cases "store f i h")
  show ?case
  proof (cases r)
    case (Inl e)
    then have "g = f" using store_raises [of f i h e] s by simp
    with p s Inl show ?thesis by simp
  next
    case (Inr u)
    have loop: "add_loop f (p # ps) = add_loop g ps" using p s Inr by simp
    have "written g i h" using store_writes [of f i h u] s Inr by simp
    then have "written (snd (add_loop g ps)) i h" by (rule add_loop_written)
    then have "store (snd (add_loop g ps)) i h = (Inr (), snd (add_loop g ps))"
      by (rule written_store)
    then have "add_loop (snd (add_loop g ps)) (p # ps) = add_loop (snd (add_loop g ps)) ps"
      using p by simp
    with loop Cons.IH [of g] show ?thesis by simp
  qed
qed

subsection \<open>What a write leaves alone\<close>

lemma store_frame:
  assumes "bit_arrays (snd (store f i h)) ! i' ! j' \<noteq> bit_arrays f ! i' ! j'"
  shows "i' = i \<and> cell f i h = Inr j'"
proof (cases "cell f i h")
  case (Inl e)
  with assms show ?thesis by (simp add: store_cell)
next
  case (Inr j)
  have i: "i' = i"
  proof (rule ccontr)
    assume "i' \<noteq> i"
    with assms Inr show False by (simp add: store_cell)
  qed
  have "j' = j"
  proof (rule ccontr)
    assume "j' \<noteq> j"
    with assms Inr i cell_less [OF Inr] show False by (simp add: store_cell)
  qed
  with i Inr show ?thesis by simp
qed

lemma add_loop_frame:
  "bit_arrays (snd (add_loop f ps)) ! i ! j \<noteq> bit_arrays f ! i ! j \<Longrightarrow>
   \<exists>h. (i, h) \<in> set ps \<and> cell f i h = Inr j"
proof (induction ps arbitrary: f)
  case Nil
  then show ?case by simp
next
  case (Cons p ps)
  obtain i' h' where p: "p = (i', h')" by (cases p)
  obtain r g where s: "store f i' h' = (r, g)" by (cases "store f i' h'")
  have g: "shape g = shape f" using store_shape [of f i' h'] s by simp
  show ?case
  proof (cases "bit_arrays g ! i ! j = bit_arrays f ! i ! j")
    case False
    then have "i = i' \<and> cell f i' h' = Inr j" using store_frame [of f i' h' i j] s by simp
    with p show ?thesis by auto
  next
    case True
    have r: "\<exists>u. r = Inr u"
    proof (cases r)
      case (Inl e)
      with Cons.prems p s True show ?thesis by simp
    qed simp
    then have "add_loop f (p # ps) = add_loop g ps" using p s by auto
    with Cons.prems True have "bit_arrays (snd (add_loop g ps)) ! i ! j \<noteq> bit_arrays g ! i ! j"
      by simp
    then obtain h where "(i, h) \<in> set ps" and "cell g i h = Inr j"
      using Cons.IH [of g] by blast
    then show ?thesis using cell_shape [OF g, of i h] by auto
  qed
qed

lemma add_raises_early: "hashes R f x = Inl e \<Longrightarrow> add R f x = (Inl e, f)"
  by (simp add: add_def)

lemma add_changes:
  assumes "hashes R f x = Inr hs"
    and "bit_arrays (snd (add R f x)) ! i ! j \<noteq> bit_arrays f ! i ! j"
  shows "i < length hs \<and> cell f i (hs ! i) = Inr j"
proof -
  from assms have "bit_arrays (snd (add_loop f (enumerate 0 hs))) ! i ! j \<noteq> bit_arrays f ! i ! j"
    by (simp add: add_def)
  then obtain h where "(i, h) \<in> set (enumerate 0 hs)" and "cell f i h = Inr j"
    using add_loop_frame by blast
  then show ?thesis by (auto simp: in_set_enumerate_eq)
qed

lemma cell_nonneg: "cell f i h = Inr j \<Longrightarrow> 0 \<le> h \<Longrightarrow> int j = h"
  by (auto simp: cell_def py_index_def split: if_splits)

lemma shape_lengths:
  "shape g = shape f \<Longrightarrow>
   size_bf g = size_bf f \<and> length (bit_arrays g) = length (bit_arrays f) \<and>
   (\<forall>i < length (bit_arrays f). length (bit_arrays g ! i) = length (bit_arrays f ! i))"
  unfolding shape_def by (metis Pair_inject length_map nth_map)

subsection \<open>A write stores 1 and nothing else\<close>

lemma store_values:
  "bit_arrays (snd (store f i h)) ! i' ! j' = bit_arrays f ! i' ! j' \<or>
   bit_arrays (snd (store f i h)) ! i' ! j' = 1"
proof (cases "cell f i h")
  case (Inl e)
  then show ?thesis by (simp add: store_cell)
next
  case (Inr j)
  show ?thesis
  proof (cases "i' = i")
    case True
    with Inr cell_less [OF Inr] show ?thesis
      by (cases "j' = j") (simp_all add: store_cell)
  next
    case False
    with Inr show ?thesis by (simp add: store_cell)
  qed
qed

lemma add_loop_values:
  "bit_arrays (snd (add_loop f ps)) ! i ! j = bit_arrays f ! i ! j \<or>
   bit_arrays (snd (add_loop f ps)) ! i ! j = 1"
proof (induction ps arbitrary: f)
  case Nil
  show ?case by simp
next
  case (Cons p ps)
  obtain i' h' where p: "p = (i', h')" by (cases p)
  obtain r g where s: "store f i' h' = (r, g)" by (cases "store f i' h'")
  have g: "bit_arrays g ! i ! j = bit_arrays f ! i ! j \<or> bit_arrays g ! i ! j = 1"
    using store_values [of f i' h' i j] s by simp
  show ?case
  proof (cases r)
    case (Inl e)
    with p s g show ?thesis by simp
  next
    case (Inr u)
    with p s g Cons.IH [of g] show ?thesis by auto
  qed
qed

lemma add_values:
  "bit_arrays (snd (add R f x)) ! i ! j = bit_arrays f ! i ! j \<or>
   bit_arrays (snd (add R f x)) ! i ! j = 1"
  by (cases "hashes R f x") (simp_all add: add_def add_loop_values)

lemma adds_values:
  "bit_arrays (snd (adds R f xs)) ! i ! j = bit_arrays f ! i ! j \<or>
   bit_arrays (snd (adds R f xs)) ! i ! j = 1"
proof (induction xs arbitrary: f)
  case Nil
  show ?case by simp
next
  case (Cons x xs)
  obtain r g where a: "add R f x = (r, g)" by (cases "add R f x")
  have g: "bit_arrays g ! i ! j = bit_arrays f ! i ! j \<or> bit_arrays g ! i ! j = 1"
    using add_values [of R f x i j] a by simp
  show ?case
  proof (cases r)
    case (Inl e)
    with a g show ?thesis by simp
  next
    case (Inr u)
    with a g Cons.IH [of g] show ?thesis by auto
  qed
qed

section \<open>The properties of the specification\<close>

text \<open>
  An item, as the specification has it, is a value with a string form that encodes to
  UTF-8: \<open>item_bytes R x = Inr bs\<close>. On any other value \<open>_hashes\<close> raises before the
  filter is read or written.
\<close>

text \<open>
  C1. No false negatives: whenever a run of \<open>add\<close> calls that contains \<open>add(x)\<close> has
  returned, \<open>check(x)\<close> on the filter it leaves returns \<open>True\<close>, whatever was added
  before (\<open>xs\<close>, and the state \<open>f\<close> the run started from) and after (\<open>ys\<close>). Such a run
  does return on every filter of positive size when each item has a string form that
  encodes to UTF-8.
\<close>

theorem no_false_negatives:
  "(fst (adds R f (xs @ x # ys)) = Inr () \<longrightarrow>
      fst (check R (snd (adds R f (xs @ x # ys))) x) = Inr True) \<and>
   (well_formed f \<and> (\<forall>y \<in> set (xs @ x # ys). \<exists>bs. item_bytes R y = Inr bs) \<longrightarrow>
      fst (adds R f (xs @ x # ys)) = Inr ())"
proof (intro conjI impI)
  assume ok: "fst (adds R f (xs @ x # ys)) = Inr ()"
  obtain r1 g1 where 1: "adds R f xs = (r1, g1)" by (cases "adds R f xs")
  obtain r2 g2 where 2: "add R g1 x = (r2, g2)" by (cases "add R g1 x")
  from ok 1 have r1: "r1 = Inr ()" by (cases r1) (simp_all add: adds_append)
  from ok 1 2 r1 have r2: "r2 = Inr ()" by (cases r2) (simp_all add: adds_append)
  have run: "adds R f (xs @ x # ys) = adds R g2 ys"
    using 1 2 r1 r2 by (simp add: adds_append)
  have "fst (check R g2 x) = Inr True"
    using check_after_add [of R g1 x "()"] 2 r2 by simp
  then show "fst (check R (snd (adds R f (xs @ x # ys))) x) = Inr True"
    using check_True_adds run by simp
next
  assume "well_formed f \<and> (\<forall>y \<in> set (xs @ x # ys). \<exists>bs. item_bytes R y = Inr bs)"
  then show "fst (adds R f (xs @ x # ys)) = Inr ()"
    using adds_returns by blast
qed

theorem no_false_negatives_witness:
  "well_formed script_bf \<and>
   item_bytes script_runtime (PyStr ''google'') = Inr [0x67, 0x6F, 0x6F, 0x67, 0x6C, 0x65] \<and>
   item_bytes script_runtime (PyStr ''openai'') = Inr [0x6F, 0x70, 0x65, 0x6E, 0x61, 0x69] \<and>
   item_bytes script_runtime PyNone = Inr [0x4E, 0x6F, 0x6E, 0x65] \<and>
   fst (adds script_runtime script_bf ([PyStr ''google''] @ PyStr ''openai'' # [PyNone]))
     = Inr () \<and>
   fst (check script_runtime
          (snd (adds script_runtime script_bf ([PyStr ''google''] @ PyStr ''openai'' # [PyNone])))
          (PyStr ''openai'')) = Inr True"
proof -
  have wf: "well_formed script_bf"
    by (simp add: well_formed_def script_bf_def numeral_3_eq_3)
  have bytes:
    "item_bytes script_runtime (PyStr ''google'') = Inr [0x67, 0x6F, 0x6F, 0x67, 0x6C, 0x65]"
    "item_bytes script_runtime (PyStr ''openai'') = Inr [0x6F, 0x70, 0x65, 0x6E, 0x61, 0x69]"
    "item_bytes script_runtime PyNone = Inr [0x4E, 0x6F, 0x6E, 0x65]"
    by (simp_all add: script_digests)
  have run: "fst (adds script_runtime script_bf
                ([PyStr ''google''] @ PyStr ''openai'' # [PyNone])) = Inr ()"
    by (simp add: script_run)
  with no_false_negatives
         [of script_runtime script_bf "[PyStr ''google'']" "PyStr ''openai''" "[PyNone]"]
  have "fst (check script_runtime
          (snd (adds script_runtime script_bf ([PyStr ''google''] @ PyStr ''openai'' # [PyNone])))
          (PyStr ''openai'')) = Inr True"
    by blast
  with wf bytes run show ?thesis by blast
qed

text \<open>
  C2. Construction validation, as the code has it: the constructor has no check of
  \<open>size\<close> and raises nothing. For every integer \<open>n\<close> it returns a filter whose size
  field is \<open>n\<close> and whose three rows have \<open>max(n, 0)\<close> cells each, none of them set; for
  a positive \<open>n\<close> that is \<open>n\<close> cleared cells per row.
\<close>

theorem init_returns:
  "\<exists>f. BloomFilter_init n = Inr f \<and> size_bf f = n \<and>
       map length (bit_arrays f) = [nat n, nat n, nat n] \<and>
       concat (bit_arrays f) = replicate (3 * nat n) 0 \<and> set_bits f = {}"
proof -
  let ?row = "replicate (nat n) (0::int)"
  let ?f = "\<lparr>size_bf = n, bit_arrays = [?row, ?row, ?row]\<rparr>"
  have "bit_set ?f i j = False" for i j
  proof (cases "i < 3 \<and> j < nat n")
    case True
    then have "i = 0 \<or> i = 1 \<or> i = 2" by auto
    with True show ?thesis by (auto simp: bit_set_def)
  next
    case False
    then show ?thesis by (auto simp: bit_set_def nth_Cons split: nat.splits)
  qed
  then have "set_bits ?f = {}" by (simp add: set_bits_def)
  moreover have "concat (bit_arrays ?f) = replicate (3 * nat n) 0"
    by (simp add: replicate_add [symmetric])
  ultimately show ?thesis by (simp add: BloomFilter_init_rows)
qed

text \<open>
  C2 as the specification states it, with a failure for a size of 0 or less, does not
  hold: \<open>BloomFilter(0)\<close> and \<open>BloomFilter(-5)\<close> return a filter with three empty rows.
\<close>

theorem init_nonpositive_counterexample:
  "BloomFilter_init 0 = Inr \<lparr>size_bf = 0, bit_arrays = [[], [], []]\<rparr> \<and>
   BloomFilter_init (- 5) = Inr \<lparr>size_bf = - 5, bit_arrays = [[], [], []]\<rparr>"
  by (simp add: BloomFilter_init_rows)

text \<open>
  C3. Empty-filter correctness: on the filter that the constructor returns for a size of
  at least 1, \<open>check(x)\<close> returns \<open>False\<close> for every item, and leaves the filter as it
  was.
\<close>

theorem empty_filter_check:
  assumes "1 \<le> n" and "BloomFilter_init n = Inr f" and "item_bytes R x = Inr bs"
  shows "check R f x = (Inr False, f)"
proof -
  let ?row = "replicate (nat n) (0::int)"
  let ?h = "int (md5 R bs) mod n"
  from assms(2) have f: "f = \<lparr>size_bf = n, bit_arrays = [?row, ?row, ?row]\<rparr>"
    by (simp add: BloomFilter_init_rows)
  have h: "0 \<le> ?h" "?h < n" using assms(1) by simp_all
  have hs: "hashes R f x = Inr [?h, int (sha1 R bs) mod n, int (sha256 R bs) mod n]"
    using assms(1,3) hashes_bytes [of f R x bs] f by simp
  have "cell f 0 ?h = Inr (nat ?h)" using h f by (simp add: cell_def py_index_nonneg)
  then have "probe f 0 ?h = Inr 0" using h f by (simp add: probe_cell)
  with hs show ?thesis by (simp add: check_def)
qed

theorem empty_filter_check_witness:
  "(1::int) \<le> 50 \<and> BloomFilter_init 50 = Inr script_bf \<and>
   item_bytes script_runtime (PyStr ''microsoft'')
     = Inr [0x6D, 0x69, 0x63, 0x72, 0x6F, 0x73, 0x6F, 0x66, 0x74] \<and>
   check script_runtime script_bf (PyStr ''microsoft'') = (Inr False, script_bf)"
proof -
  have b: "item_bytes script_runtime (PyStr ''microsoft'')
             = Inr [0x6D, 0x69, 0x63, 0x72, 0x6F, 0x73, 0x6F, 0x66, 0x74]"
    by (simp add: script_digests)
  have n: "(1::int) \<le> 50" by simp
  from empty_filter_check [OF n script_init b] n script_init b show ?thesis by simp
qed

text \<open>
  C4. Monotonicity: over any run of \<open>add\<close> calls, whether it returns or raises part of
  the way, every cell keeps its value or becomes 1, so every set bit stays set, and
  \<open>check\<close> does not touch the bits either; hence a \<open>check(x)\<close> that returned \<open>True\<close>
  returns \<open>True\<close> after the run as well.
\<close>

theorem bits_monotone:
  "set_bits f \<subseteq> set_bits (snd (adds R f xs)) \<and>
   set_bits f \<subseteq> set_bits (snd (check R f y)) \<and>
   (bit_arrays (snd (adds R f xs)) ! i ! j = bit_arrays f ! i ! j \<or>
    bit_arrays (snd (adds R f xs)) ! i ! j = 1) \<and>
   (fst (check R f x) = Inr True \<longrightarrow> fst (check R (snd (adds R f xs)) x) = Inr True)"
proof -
  have "set_bits f \<subseteq> set_bits (snd (adds R f xs))"
    by (auto simp: set_bits_def adds_bit_set)
  moreover have "set_bits f \<subseteq> set_bits (snd (check R f y))"
    by (simp add: check_state)
  ultimately show ?thesis
    using adds_values [of R f xs i j] check_True_adds [of R f x xs] by blast
qed

theorem bits_monotone_witness:
  "fst (check script_runtime (snd (add script_runtime script_bf (PyStr ''google'')))
          (PyStr ''google'')) = Inr True \<and>
   fst (check script_runtime
          (snd (adds script_runtime (snd (add script_runtime script_bf (PyStr ''google'')))
                  [PyStr ''openai'', PyNone]))
          (PyStr ''google'')) = Inr True \<and>
   (0, 12) \<in> set_bits (snd (add script_runtime script_bf (PyStr ''google''))) \<and>
   (0, 12) \<in> set_bits
     (snd (adds script_runtime (snd (add script_runtime script_bf (PyStr ''google'')))
             [PyStr ''openai'', PyNone]))"
proof -
  let ?g = "snd (add script_runtime script_bf (PyStr ''google''))"
  have before: "fst (check script_runtime ?g (PyStr ''google'')) = Inr True"
    by (simp add: script_run)
  have bit: "(0, 12) \<in> set_bits ?g"
    by (simp add: set_bits_def bit_set_def script_run)
  from bits_monotone [of ?g script_runtime "[PyStr ''openai'', PyNone]" "PyStr ''google''"
                         0 12 "PyStr ''google''"]
    before bit
  show ?thesis by blast
qed

text \<open>
  C5. Idempotence of insertion: in every state, a second \<open>add(x)\<close> right after the
  first leaves the filter exactly as the first left it, and ends the way the first did.
\<close>

theorem add_idempotent:
  "snd (add R (snd (add R f x)) x) = snd (add R f x) \<and>
   fst (add R (snd (add R f x)) x) = fst (add R f x)"
proof -
  have "add R (snd (add R f x)) x = add R f x"
  proof (cases "hashes R f x")
    case (Inl e)
    then show ?thesis by (simp add: add_def)
  next
    case (Inr hs)
    then have "snd (add R f x) = snd (add_loop f (enumerate 0 hs))"
      by (simp add: add_def)
    moreover have "hashes R (snd (add R f x)) x = Inr hs"
      using Inr by (simp add: hashes_add)
    ultimately show ?thesis
      using Inr by (simp add: add_def add_loop_again)
  qed
  then show ?thesis by simp
qed

text \<open>
  C6. Hash-position contract: on a filter of size at least 1, \<open>_hashes\<close> returns for
  every item exactly three indices, the MD5, SHA-1 and SHA-256 digests in that order, each
  reduced modulo \<open>size\<close> and so between 0 and \<open>size - 1\<close>; the result does not depend on
  the bits, so it is the same after any \<open>add\<close> and \<open>check\<close> calls on the filter.
\<close>

theorem hashes_contract:
  assumes "1 \<le> size_bf f" and "item_bytes R x = Inr bs"
  shows "hashes R f x =
           Inr [int (md5 R bs) mod size_bf f, int (sha1 R bs) mod size_bf f,
                int (sha256 R bs) mod size_bf f] \<and>
         (\<exists>hs. hashes R f x = Inr hs \<and> length hs = 3 \<and>
               (\<forall>h \<in> set hs. 0 \<le> h \<and> h \<le> size_bf f - 1)) \<and>
         hashes R (snd (adds R f ys)) x = hashes R f x \<and>
         hashes R (snd (check R f y)) x = hashes R f x"
proof -
  have "hashes R f x =
          Inr [int (md5 R bs) mod size_bf f, int (sha1 R bs) mod size_bf f,
               int (sha256 R bs) mod size_bf f]"
    using assms by (simp add: hashes_bytes)
  moreover have "0 \<le> k mod size_bf f \<and> k mod size_bf f \<le> size_bf f - 1" for k
    using assms(1) pos_mod_bound [of "size_bf f" k] by simp
  moreover have "hashes R (snd (adds R f ys)) x = hashes R f x"
    by (rule hashes_shape [OF adds_shape])
  moreover have "hashes R (snd (check R f y)) x = hashes R f x"
    by (simp add: check_state)
  ultimately show ?thesis by simp
qed

theorem hashes_contract_witness:
  "1 \<le> size_bf script_bf \<and>
   item_bytes script_runtime (PyStr ''google'') = Inr [0x67, 0x6F, 0x6F, 0x67, 0x6C, 0x65] \<and>
   hashes script_runtime script_bf (PyStr ''google'') = Inr [12, 35, 31] \<and>
   hashes script_runtime
     (snd (adds script_runtime script_bf [PyStr ''openai''])) (PyStr ''google'')
     = Inr [12, 35, 31]"
proof -
  have n: "1 \<le> size_bf script_bf" by (simp add: script_bf_def)
  have h: "hashes script_runtime script_bf (PyStr ''google'') = Inr [12, 35, 31]"
    by (simp add: script_google script_bf_def)
  from hashes_contract [OF n script_bytes_google, of "[PyStr ''openai'']"] n script_bytes_google h
  show ?thesis by simp
qed

text \<open>
  C7. \<open>check\<close> is a pure read: it leaves the filter, size and rows, exactly as it found
  it, so a second call returns what the first returned.
\<close>

theorem check_pure_read:
  "snd (check R f x) = f \<and> check R (snd (check R f x)) x = check R f x"
proof -
  have "snd (check R f x) = f"
  proof (cases "hashes R f x")
    case (Inl e)
    then show ?thesis by (simp add: check_def)
  next
    case (Inr hs)
    then show ?thesis by (simp add: check_def check_loop_state)
  qed
  then show ?thesis by simp
qed

text \<open>
  C8. String-coercion equivalence: two values with the same string form are one item to
  the filter. They get the same hash positions, \<open>add\<close> and \<open>check\<close> do the same on
  either in every state, and once \<open>add(a)\<close> has returned, \<open>check(b)\<close> returns \<open>True\<close>.
\<close>

theorem str_equivalence:
  assumes "str_of R a = str_of R b"
  shows "hashes R f a = hashes R f b \<and> check R f a = check R f b \<and>
         add R f a = add R f b \<and>
         (fst (add R f a) = Inr () \<longrightarrow> fst (check R (snd (add R f a)) b) = Inr True)"
proof -
  have h: "hashes R g a = hashes R g b" for g
    using assms by (simp add: hashes_def item_bytes_def)
  then have c: "check R g a = check R g b" for g
    by (simp add: check_def)
  have "fst (check R (snd (add R f a)) b) = Inr True" if "fst (add R f a) = Inr ()"
    using check_after_add [OF that] c by simp
  with h c show ?thesis by (simp add: add_def)
qed

theorem str_equivalence_witness:
  "str_of script_runtime PyNone = str_of script_runtime (PyStr ''None'') \<and>
   PyNone \<noteq> PyStr ''None'' \<and>
   fst (add script_runtime script_bf PyNone) = Inr () \<and>
   fst (check script_runtime (snd (add script_runtime script_bf PyNone)) (PyStr ''None''))
     = Inr True \<and>
   hashes script_runtime script_bf (PyStr ''None'') = Inr [16, 37, 27]"
proof -
  have s: "str_of script_runtime PyNone = str_of script_runtime (PyStr ''None'')"
    by (simp add: script_str)
  have a: "fst (add script_runtime script_bf PyNone) = Inr ()"
    by (simp add: script_run)
  have h: "hashes script_runtime script_bf PyNone = Inr [16, 37, 27]"
    by (simp add: script_None script_bf_def)
  have "PyNone \<noteq> PyStr ''None''" by simp
  with str_equivalence [OF s, of script_bf] s a h show ?thesis by metis
qed

text \<open>
  C9. Size zero: \<open>BloomFilter(0)\<close> returns a filter with three empty rows; on it, and
  on any filter whose size is 0, \<open>add\<close> and \<open>check\<close> of an item raise
  \<open>ZeroDivisionError\<close> from the reduction modulo \<open>size\<close> and leave the filter as it was,
  so every later call raises as well.
\<close>

theorem zero_size_raises:
  assumes "item_bytes R x = Inr bs"
  shows "BloomFilter_init 0 = Inr \<lparr>size_bf = 0, bit_arrays = [[], [], []]\<rparr> \<and>
         add R \<lparr>size_bf = 0, bit_arrays = [[], [], []]\<rparr> x
           = (Inl ZeroDivisionError, \<lparr>size_bf = 0, bit_arrays = [[], [], []]\<rparr>) \<and>
         check R \<lparr>size_bf = 0, bit_arrays = [[], [], []]\<rparr> x
           = (Inl ZeroDivisionError, \<lparr>size_bf = 0, bit_arrays = [[], [], []]\<rparr>) \<and>
         (size_bf f = 0 \<longrightarrow>
            add R f x = (Inl ZeroDivisionError, f) \<and> check R f x = (Inl ZeroDivisionError, f))"
  using assms by (simp add: BloomFilter_init_rows add_def check_def hashes_zero)

theorem zero_size_raises_witness:
  "item_bytes script_runtime (PyStr ''google'') = Inr [0x67, 0x6F, 0x6F, 0x67, 0x6C, 0x65] \<and>
   BloomFilter_init 0 = Inr \<lparr>size_bf = 0, bit_arrays = [[], [], []]\<rparr> \<and>
   add script_runtime \<lparr>size_bf = 0, bit_arrays = [[], [], []]\<rparr> (PyStr ''google'')
     = (Inl ZeroDivisionError, \<lparr>size_bf = 0, bit_arrays = [[], [], []]\<rparr>) \<and>
   check script_runtime \<lparr>size_bf = 0, bit_arrays = [[], [], []]\<rparr> (PyStr ''google'')
     = (Inl ZeroDivisionError, \<lparr>size_bf = 0, bit_arrays = [[], [], []]\<rparr>)"
  using zero_size_raises [OF script_bytes_google, of "\<lparr>size_bf = 0, bit_arrays = [[], [], []]\<rparr>"]
    script_bytes_google
  by simp

text \<open>
  C10. Frame of \<open>add\<close>: on a filter of size at least 1, \<open>add(x)\<close> leaves the size, the
  number of rows and the length of every row as they were, and a cell that it changes is
  cell \<open>hash1\<close> of row 0, cell \<open>hash2\<close> of row 1 or cell \<open>hash3\<close> of row 2: at most one
  cell in each of the three rows, at the hash position of \<open>x\<close> for that row.
\<close>

theorem add_frame:
  assumes "1 \<le> size_bf f" and "item_bytes R x = Inr bs"
  shows "size_bf (snd (add R f x)) = size_bf f \<and>
         length (bit_arrays (snd (add R f x))) = length (bit_arrays f) \<and>
         (\<forall>i < length (bit_arrays f).
            length (bit_arrays (snd (add R f x)) ! i) = length (bit_arrays f ! i)) \<and>
         (\<forall>i j. bit_arrays (snd (add R f x)) ! i ! j \<noteq> bit_arrays f ! i ! j \<longrightarrow>
            i = 0 \<and> int j = int (md5 R bs) mod size_bf f \<or>
            i = 1 \<and> int j = int (sha1 R bs) mod size_bf f \<or>
            i = 2 \<and> int j = int (sha256 R bs) mod size_bf f)"
proof -
  let ?n = "size_bf f"
  let ?hs = "[int (md5 R bs) mod ?n, int (sha1 R bs) mod ?n, int (sha256 R bs) mod ?n]"
  have hs: "hashes R f x = Inr ?hs" using assms by (simp add: hashes_bytes)
  have cells: "i = 0 \<and> int j = ?hs ! 0 \<or> i = 1 \<and> int j = ?hs ! 1 \<or> i = 2 \<and> int j = ?hs ! 2"
    if "bit_arrays (snd (add R f x)) ! i ! j \<noteq> bit_arrays f ! i ! j" for i j
  proof -
    from add_changes [OF hs that] have i: "i < 3" and c: "cell f i (?hs ! i) = Inr j"
      by simp_all
    from i have "0 \<le> ?hs ! i" using assms(1) by (auto simp: nth_Cons split: nat.splits)
    with c have "int j = ?hs ! i" by (rule cell_nonneg)
    moreover from i have "i = 0 \<or> i = 1 \<or> i = 2" by auto
    ultimately show ?thesis by auto
  qed
  from shape_lengths [OF add_shape, of R f x] cells show ?thesis by simp
qed

theorem add_frame_witness:
  "1 \<le> size_bf script_bf \<and>
   item_bytes script_runtime (PyStr ''google'') = Inr [0x67, 0x6F, 0x6F, 0x67, 0x6C, 0x65] \<and>
   snd (add script_runtime script_bf (PyStr ''google'')) =
     \<lparr>size_bf = 50,
      bit_arrays = [(replicate 50 0)[12 := 1], (replicate 50 0)[35 := 1],
                    (replicate 50 0)[31 := 1]]\<rparr> \<and>
   size_bf (snd (add script_runtime script_bf (PyStr ''google''))) = size_bf script_bf"
proof -
  have n: "1 \<le> size_bf script_bf" by (simp add: script_bf_def)
  have a: "snd (add script_runtime script_bf (PyStr ''google'')) =
     \<lparr>size_bf = 50,
      bit_arrays = [(replicate 50 0)[12 := 1], (replicate 50 0)[35 := 1],
                    (replicate 50 0)[31 := 1]]\<rparr>"
    by (simp add: script_run)
  from add_frame [OF n script_bytes_google] n script_bytes_google a show ?thesis by blast
qed

end
